theory Spec2Isabelle
  imports Complex_Main
begin

section \<open>Python values and built-ins used by \<^verbatim>\<open>pssst-chat.py\<close>\<close>

text \<open>
  The script is Python 2: \<^verbatim>\<open>getstr()\<close> returns a byte string that is matched against a
  text pattern. A \<^verbatim>\<open>str\<close> is modelled as \<^typ>\<open>string\<close>, an \<^verbatim>\<open>int\<close> as \<^typ>\<open>int\<close>.
  An exception is a value: its class and its message.
\<close>

datatype exn =
    Exception string
  | TypeError string
  | ValueError string
  | UnicodeDecodeError string

text \<open>\<^verbatim>\<open>"%s" % ex\<close>: the message of the exception.\<close>

fun str :: "exn \<Rightarrow> string" where
  "str (Exception m) = m"
| "str (TypeError m) = m"
| "str (ValueError m) = m"
| "str (UnicodeDecodeError m) = m"

subsection \<open>Slices and ranges\<close>

text \<open>
  A slice bound \<^verbatim>\<open>i\<close> of a sequence of length \<^verbatim>\<open>n\<close>: a negative bound counts from the
  end, and every bound is clamped to \<^verbatim>\<open>0..n\<close>.
\<close>

definition slice_index :: "nat \<Rightarrow> int \<Rightarrow> nat" where
  "slice_index n i = (if i < 0 then nat (int n + i) else min n (nat i))"

text \<open>\<^verbatim>\<open>xs[lo:hi]\<close>, and \<^verbatim>\<open>xs[lo:]\<close> when the upper bound is \<^verbatim>\<open>None\<close>.\<close>

definition py_slice :: "'a list \<Rightarrow> int \<Rightarrow> int option \<Rightarrow> 'a list" where
  "py_slice xs lo hi =
     (let n = length xs;
          a = slice_index n lo;
          b = (case hi of None \<Rightarrow> n | Some h \<Rightarrow> slice_index n h)
      in take (b - a) (drop a xs))"

text \<open>The elements of \<^verbatim>\<open>range(i, stop, step)\<close> for a step that is not zero.\<close>

function range_from :: "int \<Rightarrow> int \<Rightarrow> int \<Rightarrow> int list" where
  "range_from i stop step =
     (if (0 < step \<and> i < stop) \<or> (step < 0 \<and> stop < i)
      then i # range_from (i + step) stop step
      else [])"
  by pat_completeness auto
termination
  by (relation "measure (\<lambda>(i, stop, step). nat (if 0 < step then stop - i else i - stop))") auto

declare range_from.simps [simp del]

definition py_range :: "int \<Rightarrow> int \<Rightarrow> int \<Rightarrow> exn + int list" where
  "py_range start stop step =
     (if step = 0 then Inl (ValueError ''range() step argument must not be zero'')
      else Inr (range_from start stop step))"

subsection \<open>Wrapping a message to the terminal width\<close>

text \<open>
  \<^verbatim>\<open>chunks = range(0, len(data), self.width)\<close> and
  \<^verbatim>\<open>[data[i:i + self.width] for i in chunks]\<close>.
\<close>

definition chunks :: "int \<Rightarrow> 'a list \<Rightarrow> exn + int list" where
  "chunks width data = py_range 0 (int (length data)) width"

definition wrap :: "int \<Rightarrow> 'a list \<Rightarrow> exn + 'a list list" where
  "wrap width data =
     (case chunks width data of
        Inl ex \<Rightarrow> Inl ex
      | Inr is \<Rightarrow> Inr (map (\<lambda>i. py_slice data i (Some (i + width))) is))"

subsection \<open>The visible window\<close>

text \<open>\<^verbatim>\<open>window = self.buffer[-(self.height - 2):]\<close> of \<^verbatim>\<open>__render\<close>.\<close>

definition window :: "int \<Rightarrow> 'a list \<Rightarrow> 'a list" where
  "window height buffer = py_slice buffer (- (height - 2)) None"

subsection \<open>Strings\<close>

text \<open>\<^verbatim>\<open>string.whitespace\<close>, the characters \<^verbatim>\<open>str.strip()\<close> removes.\<close>

definition whitespace :: string where
  "whitespace = [CHR 0x09, CHR 0x0A, CHR 0x0B, CHR 0x0C, CHR 0x0D, CHR 0x20]"

definition strip :: "string \<Rightarrow> string" where
  "strip s =
     rev (dropWhile (\<lambda>c. c \<in> set whitespace) (rev (dropWhile (\<lambda>c. c \<in> set whitespace) s)))"

definition ascii_lowercase :: string where
  "ascii_lowercase = ''abcdefghijklmnopqrstuvwxyz''"

definition ascii_uppercase :: string where
  "ascii_uppercase = ''ABCDEFGHIJKLMNOPQRSTUVWXYZ''"

definition digits :: string where
  "digits = ''0123456789''"

text \<open>\<^verbatim>\<open>str.lower()\<close> of a byte string: the ASCII capitals change, nothing else does.\<close>

definition lower :: "string \<Rightarrow> string" where
  "lower s =
     map (\<lambda>c. case map_of (zip ascii_uppercase ascii_lowercase) c of
                None \<Rightarrow> c
              | Some d \<Rightarrow> d) s"

text \<open>\<^verbatim>\<open>s.ljust(width)\<close>: padded with spaces on the right, never shortened.\<close>

definition ljust :: "int \<Rightarrow> string \<Rightarrow> string" where
  "ljust w s = s @ replicate (nat (w - int (length s))) (CHR 0x20)"

text \<open>
  \<^verbatim>\<open>line.split(" ", 1)\<close>: one split at the first space; the line itself, alone, when it
  has no space.
\<close>

definition split1 :: "string \<Rightarrow> string list" where
  "split1 line =
     (let a = takeWhile (\<lambda>c. c \<noteq> CHR 0x20) line;
          b = dropWhile (\<lambda>c. c \<noteq> CHR 0x20) line
      in if b = [] then [line] else [a, tl b])"

subsection \<open>The fragment of \<^verbatim>\<open>re\<close> the command pattern uses\<close>

text \<open>
  Character classes without flags on a byte string: \<^verbatim>\<open>\w\<close> is \<^verbatim>\<open>[a-zA-Z0-9_]\<close>,
  \<^verbatim>\<open>\W\<close> its complement, \<^verbatim>\<open>.\<close> any character but the newline.
\<close>

datatype atom = Word | NonWord | Dot

definition word_chars :: string where
  "word_chars = ascii_lowercase @ ascii_uppercase @ digits @ ''_''"

fun atom_ok :: "atom \<Rightarrow> char \<Rightarrow> bool" where
  "atom_ok Word c = (c \<in> set word_chars)"
| "atom_ok NonWord c = (c \<notin> set word_chars)"
| "atom_ok Dot c = (c \<noteq> CHR 0x0A)"

text \<open>
  A pattern: a literal string, \<^verbatim>\<open>^\<close>, \<^verbatim>\<open>$\<close>, a sequence, \<^verbatim>\<open>(r)?\<close>, and a greedy
  repetition \<^verbatim>\<open>a{lo,hi}\<close> of a character class (\<^verbatim>\<open>a+\<close> is \<^verbatim>\<open>a{1,}\<close>).
\<close>

datatype rx =
    Str string
  | Bol
  | Eol
  | Seq rx rx
  | Opt rx
  | Rep atom nat "nat option"

text \<open>
  Backtracking as a list of successes. A state is the number of characters consumed and
  the text that remains; the result lists the states after a match, the one the engine
  tries first at the head. \<^verbatim>\<open>$\<close> holds at the end and before a final newline.
\<close>

fun rx_match :: "rx \<Rightarrow> nat \<times> string \<Rightarrow> (nat \<times> string) list" where
  "rx_match (Str t) (n, s) =
     (if take (length t) s = t then [(n + length t, drop (length t) s)] else [])"
| "rx_match Bol (n, s) = (if n = 0 then [(n, s)] else [])"
| "rx_match Eol (n, s) = (if s = [] \<or> s = [CHR 0x0A] then [(n, s)] else [])"
| "rx_match (Seq r1 r2) (n, s) = concat (map (rx_match r2) (rx_match r1 (n, s)))"
| "rx_match (Opt r) (n, s) = rx_match r (n, s) @ [(n, s)]"
| "rx_match (Rep a lo hi) (n, s) =
     (let m = length (takeWhile (atom_ok a) s);
          m' = (case hi of None \<Rightarrow> m | Some h \<Rightarrow> min m h)
      in map (\<lambda>k. (n + k, drop k s)) (rev [lo..<Suc m']))"

text \<open>\<^verbatim>\<open>re.match(pattern, s)\<close> as a truth value: a match that starts at the beginning.\<close>

definition re_match :: "rx \<Rightarrow> string \<Rightarrow> bool" where
  "re_match r s = (rx_match r (0, s) \<noteq> [])"

text \<open>\<^verbatim>\<open>"^(pssst\.)?\w{2,63}\W+.+$"\<close>\<close>

definition push_pattern :: rx where
  "push_pattern =
     Seq Bol
    (Seq (Opt (Str ''pssst.''))
    (Seq (Rep Word 2 (Some 63))
    (Seq (Rep NonWord 1 None)
    (Seq (Rep Dot 1 None)
     Eol))))"

text \<open>
  The command pattern in the words of the specification, to compare with the pattern of
  the source: an optional literal prefix \<^verbatim>\<open>pssst.\<close>, a token of 2 to 63 word
  characters, one or more characters that are not word characters, and a remaining text
  that is not empty.
\<close>

definition spec_push_command :: "string \<Rightarrow> bool" where
  "spec_push_command line \<longleftrightarrow>
     (\<exists>prefix token sep rest.
        line = prefix @ token @ sep @ rest
      \<and> (prefix = [] \<or> prefix = ''pssst.'')
      \<and> 2 \<le> length token \<and> length token \<le> 63 \<and> (\<forall>c \<in> set token. c \<in> set word_chars)
      \<and> sep \<noteq> [] \<and> (\<forall>c \<in> set sep. c \<notin> set word_chars)
      \<and> rest \<noteq> [])"

section \<open>The chat\<close>

subsection \<open>Collaborators\<close>

text \<open>
  What the chat reads of the \<^verbatim>\<open>Pssst\<close> object: \<^verbatim>\<open>repr(self.pssst)\<close>,
  \<^verbatim>\<open>self.pssst.api\<close> and \<^verbatim>\<open>repr(self.pssst.user)\<close>. Its \<^verbatim>\<open>push\<close> and \<^verbatim>\<open>pull\<close> are
  given by their results: \<^verbatim>\<open>push\<close> as a function to the exception it raises, if any, and
  each \<^verbatim>\<open>pull\<close> as the exception it raises or the messages it returns.
\<close>

record pssst =
  pssst_repr :: string
  api :: string
  user_repr :: string

text \<open>
  The calls the chat makes on \<^verbatim>\<open>curses\<close>, the screen, the \<^verbatim>\<open>Pssst\<close> object, its thread
  and \<^verbatim>\<open>time\<close>, in the order it makes them. \<^verbatim>\<open>Wrapper_begin\<close> and \<^verbatim>\<open>Wrapper_end\<close>
  stand for what \<^verbatim>\<open>curses.wrapper\<close> does before and after the function it wraps;
  \<^verbatim>\<open>Move_back\<close> is \<^verbatim>\<open>move(*cursor)\<close> with the position \<^verbatim>\<open>getyx()\<close> gave. A failure
  of a \<^verbatim>\<open>curses\<close> call is not modelled.
\<close>

datatype call =
    Wrapper_begin
  | Getmaxyx
  | Noecho
  | Cbreak
  | Keypad bool
  | Use_default_colors
  | Init_pair int
  | Wrapper_end
  | Endwin
  | Getyx
  | Addstr int int string
  | Clrtoeol
  | Move int int
  | Move_back
  | Refresh
  | Clear
  | Getstr
  | Push string string
  | Pull
  | Thread_start
  | Thread_join
  | Sleep int

text \<open>The \<^verbatim>\<open>push\<close> calls among the calls made, with their arguments.\<close>

fun pushes :: "call list \<Rightarrow> (string \<times> string) list" where
  "pushes [] = []"
| "pushes (Push receiver message # cs) = (receiver, message) # pushes cs"
| "pushes (c # cs) = pushes cs"

subsection \<open>The object\<close>

text \<open>
  The attributes \<^verbatim>\<open>__init__\<close> sets, and those \<^verbatim>\<open>__enter__\<close> adds. \<^verbatim>\<open>calls\<close> is not an
  attribute: it records the calls made so far.
\<close>

record chat =
  buffer :: "string list"
  pssst :: pssst
  halt :: bool

record session = chat +
  height :: int
  width :: int
  calls :: "call list"

definition INTRO :: string where
  "INTRO = ''Type 'USERNAME ...' to send a message and 'exit' to exit.''"

text \<open>
  The profile is \<^verbatim>\<open>None\<close> or a tuple of strings; \<^verbatim>\<open>not profile\<close> holds of \<^verbatim>\<open>None\<close> and
  of the empty tuple.
\<close>

definition truthy :: "string list option \<Rightarrow> bool" where
  "truthy profile = (case profile of None \<Rightarrow> False | Some args \<Rightarrow> args \<noteq> [])"

text \<open>\<^verbatim>\<open>__init__\<close>; \<^verbatim>\<open>Pssst\<close> is the collaborator's constructor.\<close>

definition init :: "(string list \<Rightarrow> exn + pssst) \<Rightarrow> string list option \<Rightarrow> exn + chat" where
  "init Pssst profile =
     (if \<not> truthy profile then Inl (Exception ''Profile required'')
      else case profile of
        None \<Rightarrow> Inl (TypeError ''argument after * must be a sequence'')
      | Some args \<Rightarrow>
          (case Pssst args of
             Inl ex \<Rightarrow> Inl ex
           | Inr p \<Rightarrow> Inr \<lparr>buffer = [INTRO, []], pssst = p, halt = False\<rparr>))"

text \<open>\<^verbatim>\<open>__enter__\<close>, on a terminal of the given \<^verbatim>\<open>(height, width)\<close>.\<close>

definition enter :: "int \<times> int \<Rightarrow> chat \<Rightarrow> session" where
  "enter maxyx c =
     (let title = pssst_repr (pssst c) @ '' - '' @ api (pssst c);
          (h, w) = maxyx
      in \<lparr>buffer = buffer c, pssst = pssst c, halt = halt c,
          height = h, width = w,
          calls = [Wrapper_begin, Getmaxyx, Noecho, Cbreak, Keypad True, Use_default_colors,
                   Init_pair 1, Addstr 0 0 (ljust w title), Wrapper_end]\<rparr>)"

text \<open>\<^verbatim>\<open>__pssst_push\<close>\<close>

definition pssst_push ::
  "(string \<Rightarrow> string \<Rightarrow> exn option) \<Rightarrow> string \<Rightarrow> string \<Rightarrow> session \<Rightarrow> session" where
  "pssst_push push receiver message s =
     (let s' = s\<lparr>calls := calls s @ [Push receiver message]\<rparr>
      in case push receiver message of
           None \<Rightarrow> s'
         | Some ex \<Rightarrow> s'\<lparr>buffer := buffer s' @ [''Error: '' @ str ex]\<rparr>)"

text \<open>\<^verbatim>\<open>__pssst_pull\<close>: the messages, or \<^verbatim>\<open>None\<close> after an exception.\<close>

definition pssst_pull :: "exn + string list \<Rightarrow> session \<Rightarrow> string list option \<times> session" where
  "pssst_pull pulled s =
     (let s' = s\<lparr>calls := calls s @ [Pull]\<rparr>
      in case pulled of
           Inr messages \<Rightarrow> (Some messages, s')
         | Inl ex \<Rightarrow> (None, s'\<lparr>buffer := buffer s' @ [''Error: '' @ str ex]\<rparr>))"

text \<open>\<^verbatim>\<open>__render\<close>\<close>

definition render :: "session \<Rightarrow> session" where
  "render s =
     (let w = window (height s) (buffer s)
      in s\<lparr>calls := calls s @ [Getyx]
              @ concat (map (\<lambda>y. [Addstr (1 + int y) 0 (w ! y), Clrtoeol]) [0..<length w])
              @ [Move_back, Refresh]\<rparr>)"

text \<open>\<^verbatim>\<open>__prompt\<close>, when the user types \<^verbatim>\<open>raw\<close>.\<close>

definition prompt_draw :: "session \<Rightarrow> session" where
  "prompt_draw s =
     (let p = user_repr (pssst s) @ ''> ''; y = height s - 1
      in s\<lparr>calls := calls s @ [Addstr y 0 p, Move y (int (length p)), Clrtoeol, Getstr]\<rparr>)"

definition prompt :: "string \<Rightarrow> session \<Rightarrow> string \<times> session" where
  "prompt raw s = (strip raw, prompt_draw s)"

text \<open>\<^verbatim>\<open>exit\<close>\<close>

definition exit :: "session \<Rightarrow> session" where
  "exit s = s\<lparr>halt := True, calls := calls s @ [Thread_join, Clear, Refresh]\<rparr>"

subsection \<open>The two loops\<close>

text \<open>
  Each loop is modelled as the sequential program it is, on the attributes both share;
  how the two threads interleave is not modelled. The result of a loop body, and of a
  loop on the inputs given so far: the loop goes on, it has returned, or it has raised.
\<close>

datatype outcome = Continue session | Return session | Raise exn session

fun state :: "outcome \<Rightarrow> session" where
  "state (Continue s) = s"
| "state (Return s) = s"
| "state (Raise ex s) = s"

text \<open>\<^verbatim>\<open>x or []\<close>\<close>

definition or_empty :: "'a list option \<Rightarrow> 'a list" where
  "or_empty x = (case x of None \<Rightarrow> [] | Some xs \<Rightarrow> xs)"

text \<open>
  The \<^verbatim>\<open>for\<close> loop of \<^verbatim>\<open>__thread\<close>; \<^verbatim>\<open>decode\<close> is \<^verbatim>\<open>data.decode("utf-8")\<close>, the
  text or the exception.
\<close>

fun pulled_loop :: "(string \<Rightarrow> exn + string) \<Rightarrow> string list \<Rightarrow> session \<Rightarrow> outcome" where
  "pulled_loop decode [] s = Continue s"
| "pulled_loop decode (data # rest) s =
     (case decode data of
        Inl ex \<Rightarrow> Raise ex s
      | Inr text \<Rightarrow>
          (case wrap (width s) text of
             Inl ex \<Rightarrow> Raise ex s
           | Inr lines \<Rightarrow> pulled_loop decode rest (s\<lparr>buffer := buffer s @ lines\<rparr>)))"

text \<open>One pass of the \<^verbatim>\<open>while\<close> loop of \<^verbatim>\<open>__thread\<close>, on the result of its pull.\<close>

definition thread_pass ::
  "(string \<Rightarrow> exn + string) \<Rightarrow> exn + string list \<Rightarrow> session \<Rightarrow> outcome" where
  "thread_pass decode pulled s =
     (let (messages, s1) = pssst_pull pulled s
      in case pulled_loop decode (or_empty messages) s1 of
           Continue s2 \<Rightarrow> Continue ((render s2)\<lparr>calls := calls (render s2) @ [Sleep 1]\<rparr>)
         | Return s2 \<Rightarrow> Return s2
         | Raise ex s2 \<Rightarrow> Raise ex s2)"

text \<open>
  \<^verbatim>\<open>__thread\<close>, on the results of the pulls still to come: \<^verbatim>\<open>Continue\<close> is the loop
  about to pull again.
\<close>

fun thread ::
  "(string \<Rightarrow> exn + string) \<Rightarrow> (exn + string list) list \<Rightarrow> session \<Rightarrow> outcome" where
  "thread decode [] s = (if halt s then Return s else Continue s)"
| "thread decode (pulled # rest) s =
     (if halt s then Return s
      else case thread_pass decode pulled s of
             Continue s' \<Rightarrow> thread decode rest s'
           | Return s' \<Rightarrow> Return s'
           | Raise ex s' \<Rightarrow> Raise ex s')"

text \<open>
  The \<^verbatim>\<open>if\<close> chain of \<^verbatim>\<open>run\<close> on the line the prompt returned. \<^verbatim>\<open>__pssst_push\<close> takes
  the two parts of the split as its arguments; with one part the call is a
  \<^verbatim>\<open>TypeError\<close>, raised outside the \<^verbatim>\<open>try\<close> of \<^verbatim>\<open>__pssst_push\<close>.
\<close>

definition run_line ::
  "(string \<Rightarrow> string \<Rightarrow> exn option) \<Rightarrow> string \<Rightarrow> session \<Rightarrow> outcome" where
  "run_line push line s =
     (if line = [] then Continue s
      else if lower line = ''exit'' then Return (exit s)
      else if re_match push_pattern line then
        (case split1 line of
           [receiver, message] \<Rightarrow> Continue (pssst_push push receiver message s)
         | _ \<Rightarrow> Raise (TypeError ''__pssst_push() takes exactly 3 arguments (2 given)'') s)
      else Continue (s\<lparr>buffer := buffer s @ [''Error: Unknown command'']\<rparr>))"

text \<open>
  The \<^verbatim>\<open>while True\<close> loop of \<^verbatim>\<open>run\<close>, on the lines the user types: \<^verbatim>\<open>Continue\<close> is the
  loop waiting in \<^verbatim>\<open>getstr()\<close> for the next one.
\<close>

fun run_loop ::
  "(string \<Rightarrow> string \<Rightarrow> exn option) \<Rightarrow> string list \<Rightarrow> session \<Rightarrow> outcome" where
  "run_loop push [] s = Continue (prompt_draw (render s))"
| "run_loop push (raw # rest) s =
     (let (line, s') = prompt raw (render s)
      in case run_line push line s' of
           Continue t \<Rightarrow> run_loop push rest t
         | Return t \<Rightarrow> Return t
         | Raise ex t \<Rightarrow> Raise ex t)"

definition run ::
  "(string \<Rightarrow> string \<Rightarrow> exn option) \<Rightarrow> string list \<Rightarrow> session \<Rightarrow> outcome" where
  "run push typed s = run_loop push typed (s\<lparr>calls := calls s @ [Thread_start]\<rparr>)"

subsection \<open>The program\<close>

text \<open>
  The last branch of \<^verbatim>\<open>main\<close>, \<^verbatim>\<open>with PssstChat(CLI.profile(arg)) as chat: chat.run()\<close>,
  under \<^verbatim>\<open>except Exception\<close>: the profile is what \<^verbatim>\<open>CLI.profile(arg)\<close> returned. The
  result is the value \<^verbatim>\<open>main\<close> returns, if it has returned, and the calls made.
\<close>

datatype status = Running | Returned "string option"

definition main ::
  "(string list \<Rightarrow> exn + pssst) \<Rightarrow> (string \<Rightarrow> string \<Rightarrow> exn option) \<Rightarrow> int \<times> int
     \<Rightarrow> string list option \<Rightarrow> string list \<Rightarrow> status \<times> call list" where
  "main Pssst push maxyx profile typed =
     (case init Pssst profile of
        Inl ex \<Rightarrow> (Returned (Some (''Error: '' @ str ex)), [])
      | Inr c \<Rightarrow>
          (case run push typed (enter maxyx c) of
             Continue s \<Rightarrow> (Running, calls s)
           | Return s \<Rightarrow> (Returned None, calls s @ [Endwin])
           | Raise ex s \<Rightarrow> (Returned (Some (''Error: '' @ str ex)), calls s @ [Endwin])))"

subsection \<open>Values for the examples\<close>

text \<open>
  A collaborator that never fails, and a session on a terminal of 24 rows and 80 columns
  with the buffer as \<^verbatim>\<open>__init__\<close> leaves it and no call recorded.
\<close>

abbreviation (input) bob :: pssst where
  "bob \<equiv> \<lparr>pssst_repr = ''Pssst 2.0'', api = ''https://api.pssst.name'', user_repr = ''bob''\<rparr>"

abbreviation (input) term0 :: session where
  "term0 \<equiv> \<lparr>buffer = [INTRO, []], pssst = bob, halt = False,
             height = 24, width = 80, calls = []\<rparr>"

definition push_ok :: "string \<Rightarrow> string \<Rightarrow> exn option" where
  "push_ok receiver message = None"

definition Pssst_ok :: "string list \<Rightarrow> exn + pssst" where
  "Pssst_ok args = Inr bob"

section \<open>Wrapping\<close>

lemma py_slice_chunk:
  assumes "0 \<le> i" "0 < w"
  shows "py_slice data i (Some (i + w)) = take (nat w) (drop (nat i) data)"
  using assms by (auto simp: py_slice_def slice_index_def Let_def min_def nat_add_distrib)

lemma range_from_length:
  "0 < w \<Longrightarrow> length (range_from i l w) = nat ((l - i + w - 1) div w)"
proof (induction i l w rule: range_from.induct)
  case (1 i stop step)
  show ?case
  proof (cases "i < stop")
    case True
    have eq: "(stop - i + step - 1) div step = (stop - (i + step) + step - 1) div step + 1"
    proof -
      have "stop - i + step - 1 = (stop - i - 1) + step" by simp
      then have "(stop - i + step - 1) div step = (stop - i - 1) div step + 1"
        using 1(2) by (simp only: div_add_self2)
      then show ?thesis by (simp add: algebra_simps)
    qed
    have nn: "0 \<le> (stop - (i + step) + step - 1) div step"
      using 1(2) True by (simp add: pos_imp_zdiv_nonneg_iff)
    from 1 True eq nn show ?thesis
      by (subst range_from.simps) (simp add: nat_add_distrib)
  next
    case False
    have "(stop - i + step - 1) div step \<le> (step - 1) div step"
      using False 1(2) by (intro zdiv_mono1) simp_all
    with 1(2) have "(stop - i + step - 1) div step \<le> 0"
      by (simp add: div_pos_pos_trivial)
    with False 1(2) show ?thesis
      by (subst range_from.simps) simp
  qed
qed

lemma range_from_concat:
  "0 < w \<Longrightarrow> 0 \<le> i \<Longrightarrow>
   concat (map (\<lambda>j. take (nat w) (drop (nat j) data)) (range_from i (int (length data)) w))
     = drop (nat i) data"
proof (induction i "int (length data)" w rule: range_from.induct)
  case (1 i step)
  show ?case
  proof (cases "i < int (length data)")
    case True
    have "take (nat step) (drop (nat i) data) @ drop (nat (i + step)) data = drop (nat i) data"
    proof -
      have "drop (nat (i + step)) data = drop (nat step) (drop (nat i) data)"
        using 1(2,3) by (simp add: nat_add_distrib add.commute)
      then show ?thesis by (simp only: append_take_drop_id)
    qed
    with 1 True show ?thesis
      by (subst range_from.simps) simp
  next
    case False
    with 1 show ?thesis
      by (subst range_from.simps) simp
  qed
qed



lemma range_from_bounds:
  "0 < w \<Longrightarrow> 0 \<le> i \<Longrightarrow> j \<in> set (range_from i l w) \<Longrightarrow> 0 \<le> j \<and> j < l"
proof (induction i l w rule: range_from.induct)
  case (1 i stop step)
  from 1(4) have "i < stop" and "j = i \<or> j \<in> set (range_from (i + step) stop step)"
    using 1(2) by (subst (asm) range_from.simps, simp split: if_splits)+
  with 1 show ?case by auto
qed

lemma range_from_butlast:
  "0 < w \<Longrightarrow> j \<in> set (butlast (range_from i l w)) \<Longrightarrow> j + w < l"
proof (induction i l w rule: range_from.induct)
  case (1 i stop step)
  from 1(3) have lt: "i < stop"
    using 1(2) by (subst (asm) range_from.simps) (simp split: if_splits)
  then have unf: "range_from i stop step = i # range_from (i + step) stop step"
    using 1(2) by (subst range_from.simps) simp
  show ?case
  proof (cases "range_from (i + step) stop step = []")
    case True
    with 1(3) unf show ?thesis by simp
  next
    case False
    then have "i + step < stop"
      using 1(2) by (subst (asm) range_from.simps) (simp split: if_splits)
    moreover from 1(3) unf False
    have "j = i \<or> j \<in> set (butlast (range_from (i + step) stop step))" by simp
    ultimately show ?thesis using 1(1)[OF _ 1(2)] lt 1(2) by auto
  qed
qed


lemma ceil_div:
  assumes "0 < (w::int)"
  shows "\<lceil>real_of_int l / real_of_int w\<rceil> = (l + w - 1) div w"
proof -
  define n where "n = (l + w - 1) div w"
  define m where "m = (l + w - 1) mod w"
  have dm: "l + w - 1 = n * w + m"
    by (simp add: n_def m_def)
  have m: "0 \<le> m" "m < w"
    using assms by (simp_all add: m_def)
  have up: "l \<le> n * w" using dm m by linarith
  have lo: "(n - 1) * w < l" using dm m by (simp add: algebra_simps)
  have "real_of_int l \<le> real_of_int (n * w)" using up by linarith
  then have a: "real_of_int l / real_of_int w \<le> real_of_int n"
    using assms by (simp add: pos_divide_le_eq)
  have "real_of_int ((n - 1) * w) < real_of_int l" using lo by linarith
  then have b: "real_of_int n - 1 < real_of_int l / real_of_int w"
    using assms by (simp add: pos_less_divide_eq)
  from a b show ?thesis unfolding n_def[symmetric] by (intro ceiling_unique) 
qed

lemma wrap_pos:
  assumes "0 < w"
  shows "wrap w data =
    Inr (map (\<lambda>j. take (nat w) (drop (nat j) data)) (range_from 0 (int (length data)) w))"
proof -
  have "map (\<lambda>i. py_slice data i (Some (i + w))) (range_from 0 (int (length data)) w)
      = map (\<lambda>j. take (nat w) (drop (nat j) data)) (range_from 0 (int (length data)) w)"
    using assms by (intro map_cong refl py_slice_chunk) (auto dest: range_from_bounds)
  with assms show ?thesis
    by (simp add: wrap_def chunks_def py_range_def)
qed

text \<open>
  C4. For a text of length \<open>L\<close> and a width \<open>W \<ge> 1\<close> the wrapping step of the poller
  returns \<open>\<lceil>L / W\<rceil>\<close> lines, every line but the last has length \<open>W\<close>, the last has
  between \<open>1\<close> and \<open>W\<close> characters, and the lines concatenated in order are the text.
\<close>

theorem wrap_roundtrip:
  assumes "1 \<le> W"
  shows "\<exists>ls. wrap W data = Inr ls
           \<and> int (length ls) = \<lceil>real (length data) / real_of_int W\<rceil>
           \<and> concat ls = data
           \<and> (\<forall>k. Suc k < length ls \<longrightarrow> int (length (ls ! k)) = W)
           \<and> (ls \<noteq> [] \<longrightarrow> 1 \<le> length (last ls) \<and> int (length (last ls)) \<le> W)"
proof -
  define L where "L = int (length data)"
  define js where "js = range_from 0 L W"
  define ls where "ls = map (\<lambda>j. take (nat W) (drop (nat j) data)) js"
  from assms have pos: "0 < W" by simp
  have w: "wrap W data = Inr ls"
    unfolding ls_def js_def L_def by (rule wrap_pos [OF pos])
  have "length ls = nat ((L + W - 1) div W)"
    using range_from_length [OF pos, of 0 L] by (simp add: ls_def js_def)
  moreover have "0 \<le> (L + W - 1) div W"
    using pos by (simp add: pos_imp_zdiv_nonneg_iff L_def)
  ultimately have len: "int (length ls) = \<lceil>real (length data) / real_of_int W\<rceil>"
    using ceil_div [OF pos, of L] by (simp add: L_def)
  have cat: "concat ls = data"
    using range_from_concat [OF pos, of 0 data] by (simp add: ls_def js_def L_def)
  have full: "int (length (ls ! k)) = W" if "Suc k < length ls" for k
  proof -
    from that have k: "k < length (butlast js)" by (simp add: ls_def)
    then have "butlast js ! k \<in> set (butlast js)" by (rule nth_mem)
    moreover have "butlast js ! k = js ! k" using k by (simp add: nth_butlast)
    ultimately have "js ! k + W < L"
      using range_from_butlast [OF pos, of "js ! k" 0 L] by (simp add: js_def)
    moreover have "0 \<le> js ! k"
      using range_from_bounds [OF pos, of 0 "js ! k" L] that by (simp add: js_def ls_def)
    ultimately show ?thesis using that pos by (simp add: ls_def L_def)
  qed
  have lst: "1 \<le> length (last ls) \<and> int (length (last ls)) \<le> W" if "ls \<noteq> []"
  proof -
    from that have ne: "js \<noteq> []" by (simp add: ls_def)
    then have "last js \<in> set js" by simp
    then have "0 \<le> last js \<and> last js < L"
      using range_from_bounds [OF pos, of 0 "last js" L] by (simp add: js_def)
    then show ?thesis using ne pos by (auto simp: ls_def last_map L_def)
  qed
  from w len cat full lst show ?thesis by blast
qed

theorem wrap_roundtrip_witness:
  "(1::int) \<le> 3 \<and> wrap 3 ''abcdefgh'' = Inr [''abc'', ''def'', ''gh'']
     \<and> \<lceil>real (length ''abcdefgh'') / real_of_int 3\<rceil> = 3"
proof -
  have h: "(1::int) \<le> 3" by simp
  obtain ls where ls: "wrap 3 ''abcdefgh'' = Inr ls" 
    and len: "int (length ls) = \<lceil>real (length ''abcdefgh'') / real_of_int 3\<rceil>"
    and cat: "concat ls = ''abcdefgh''"
    using wrap_roundtrip [OF h, of "''abcdefgh''"] by blast
  have ev: "wrap 3 ''abcdefgh'' = Inr [''abc'', ''def'', ''gh'']"
    by (simp add: wrap_def chunks_def py_range_def range_from.simps py_slice_def slice_index_def)
  with ls len show ?thesis by simp
qed

section \<open>The window\<close>

lemma py_slice_tail:
  "0 < n \<Longrightarrow> py_slice xs (- n) None = drop (length xs - nat n) xs"
  by (auto simp: py_slice_def slice_index_def Let_def nat_diff_distrib')

lemma window_tail:
  assumes "2 < h"
  shows "window h buf = drop (length buf - nat (h - 2)) buf"
  using assms py_slice_tail [of "h - 2" buf] by (simp add: window_def)

lemma window_last:
  assumes "1 \<le> n" "n \<le> int (length buf)"
  shows "window (n + 2) buf = drop (length buf - nat n) buf \<and> length (window (n + 2) buf) = nat n"
  using assms by (simp add: window_def py_slice_tail)

lemma window_all:
  assumes "1 \<le> n" "int (length buf) < n"
  shows "window (n + 2) buf = buf"
  using assms by (simp add: window_def py_slice_tail)

text \<open>
  C5. The window of \<^verbatim>\<open>__render\<close> has \<open>n = height - 2\<close> rows. For \<open>n \<ge> 1\<close> it is the last
  \<open>n\<close> lines of a buffer that has at least \<open>n\<close>, and the whole buffer otherwise
  (\<open>window_last\<close>, \<open>window_all\<close>). On a terminal of two rows \<open>n\<close> is \<open>0\<close>, the
  slice is \<^verbatim>\<open>buffer[-0:]\<close>, and the window is the whole buffer, whatever its length,
  not its last \<open>0\<close> lines.
\<close>

theorem window_height_two: "window 2 buf = buf"
  by (simp add: window_def py_slice_def slice_index_def)

lemma window_height_two_intro:
  "window 2 [INTRO, []] = [INTRO, []] \<and> length (window 2 [INTRO, []]) = 2"
  by (simp add: window_def py_slice_def slice_index_def)

lemma window_height_one: "window 1 buf = drop 1 buf"
  by (cases buf) (simp_all add: window_def py_slice_def slice_index_def)

section \<open>Calls\<close>

lemma pushes_append: "pushes (xs @ ys) = pushes xs @ pushes ys"
  by (induction xs rule: pushes.induct) simp_all

lemma pushes_rows:
  "pushes (concat (map (\<lambda>y. [Addstr (f y) 0 (g y), Clrtoeol]) ys)) = []"
  by (induction ys) simp_all

lemma render_simps:
  "buffer (render s) = buffer s" "halt (render s) = halt s" "pssst (render s) = pssst s"
  "height (render s) = height s" "width (render s) = width s"
  by (simp_all add: render_def Let_def)

lemma pushes_render: "pushes (calls (render s)) = pushes (calls s)"
  by (simp add: render_def Let_def pushes_append pushes_rows)

lemma prompt_draw_simps:
  "buffer (prompt_draw s) = buffer s" "halt (prompt_draw s) = halt s"
  "pssst (prompt_draw s) = pssst s"
  "height (prompt_draw s) = height s" "width (prompt_draw s) = width s"
  by (simp_all add: prompt_draw_def Let_def)

lemma pushes_prompt_draw: "pushes (calls (prompt_draw s)) = pushes (calls s)"
  by (simp add: prompt_draw_def Let_def pushes_append)

section \<open>The poller\<close>

lemma pssst_pull_simps:
  "halt (snd (pssst_pull pulled s)) = halt s"
  "width (snd (pssst_pull pulled s)) = width s"
  "height (snd (pssst_pull pulled s)) = height s"
  "pushes (calls (snd (pssst_pull pulled s))) = pushes (calls s)"
  by (simp_all add: pssst_pull_def Let_def pushes_append split: sum.splits)


lemma pulled_loop_halt: "halt (state (pulled_loop decode ms s)) = halt s"
  by (induction ms arbitrary: s) (simp_all split: sum.splits)

lemma thread_pass_halt: "halt (state (thread_pass decode pulled s)) = halt s"
proof -
  obtain ms s1 where p: "pssst_pull pulled s = (ms, s1)" by force
  then have "halt s1 = halt s" using pssst_pull_simps(1) [of pulled s] by simp
  moreover have "halt (state (pulled_loop decode (or_empty ms) s1)) = halt s1"
    by (rule pulled_loop_halt)
  ultimately show ?thesis
    using p by (cases "pulled_loop decode (or_empty ms) s1") (simp_all add: thread_pass_def render_simps)
qed

lemma thread_halt: "halt (state (thread decode pulls s)) = halt s"
proof (induction pulls arbitrary: s)
  case Nil
  show ?case by simp
next
  case (Cons pulled rest)
  show ?case
  proof (cases "thread_pass decode pulled s")
    case (Continue s')
    with Cons [of s'] thread_pass_halt [of decode pulled s] show ?thesis by simp
  next
    case (Return s')
    with thread_pass_halt [of decode pulled s] show ?thesis by simp
  next
    case (Raise ex s')
    with thread_pass_halt [of decode pulled s] show ?thesis by simp
  qed
qed

lemma thread_halted: "halt s \<Longrightarrow> thread decode pulls s = Return s"
  by (cases pulls) simp_all



section \<open>The command pattern\<close>

lemma takeWhile_length_iff:
  "k \<le> length (takeWhile P s) \<longleftrightarrow> k \<le> length s \<and> (\<forall>c \<in> set (take k s). P c)"
proof (induction s arbitrary: k)
  case Nil
  show ?case by simp
next
  case (Cons x xs)
  show ?case
  proof (cases k)
    case 0
    then show ?thesis by simp
  next
    case (Suc j)
    with Cons [of j] show ?thesis by auto
  qed
qed

lemma rx_match_Rep_iff:
  "q \<in> set (rx_match (Rep a lo hi) (n, s)) \<longleftrightarrow>
     (\<exists>k. q = (n + k, drop k s) \<and> lo \<le> k \<and> k \<le> length s
          \<and> (\<forall>c \<in> set (take k s). atom_ok a c)
          \<and> (case hi of None \<Rightarrow> True | Some h \<Rightarrow> k \<le> h))"
proof -
  define m where "m = length (takeWhile (atom_ok a) s)"
  define m' where "m' = (case hi of None \<Rightarrow> m | Some h \<Rightarrow> min m h)"
  have "rx_match (Rep a lo hi) (n, s) = map (\<lambda>k. (n + k, drop k s)) (rev [lo..<Suc m'])"
    unfolding m'_def m_def by (simp only: rx_match.simps Let_def)
  then have "set (rx_match (Rep a lo hi) (n, s)) = (\<lambda>k. (n + k, drop k s)) ` {lo..<Suc m'}"
    by (simp only: set_map set_rev set_upt)
  then have "q \<in> set (rx_match (Rep a lo hi) (n, s)) \<longleftrightarrow>
      (\<exists>k. q = (n + k, drop k s) \<and> lo \<le> k \<and> k \<le> m')"
    by (auto simp: less_Suc_eq_le)
  moreover have "k \<le> m' \<longleftrightarrow> k \<le> length s \<and> (\<forall>c \<in> set (take k s). atom_ok a c)
      \<and> (case hi of None \<Rightarrow> True | Some h \<Rightarrow> k \<le> h)" for k
    using takeWhile_length_iff [of k "atom_ok a" s]
    unfolding m'_def m_def by (cases hi) auto
  ultimately show ?thesis by simp
qed

lemma rx_match_Seq_iff:
  "rx_match (Seq r1 r2) p \<noteq> [] \<longleftrightarrow> (\<exists>q \<in> set (rx_match r1 p). rx_match r2 q \<noteq> [])"
  by (cases p) auto


lemma rx_match_Seq_Bol: "rx_match (Seq Bol r) (0, s) = rx_match r (0, s)"
  by simp

lemma rx_match_Seq_Opt_Str:
  "rx_match (Seq (Opt (Str t)) r) (n, s) \<noteq> [] \<longleftrightarrow>
     rx_match r (n, s) \<noteq> []
   \<or> (take (length t) s = t \<and> rx_match r (n + length t, drop (length t) s) \<noteq> [])"
  by auto

lemma rx_match_text:
  assumes "CHR 0x0A \<notin> set s"
  shows "rx_match (Seq (Rep Dot 1 None) Eol) (n, s) \<noteq> [] \<longleftrightarrow> s \<noteq> []"
proof
  assume "rx_match (Seq (Rep Dot 1 None) Eol) (n, s) \<noteq> []"
  then obtain q where "q \<in> set (rx_match (Rep Dot 1 None) (n, s))"
    unfolding rx_match_Seq_iff by blast
  then obtain k where "1 \<le> k" "k \<le> length s"
    unfolding rx_match_Rep_iff by blast
  then show "s \<noteq> []" by auto
next
  assume ne: "s \<noteq> []"
  let ?q = "(n + length s, drop (length s) s)"
  have "\<forall>c \<in> set (take (length s) s). atom_ok Dot c" using assms by auto
  moreover have "1 \<le> length s" using ne by (simp add: Suc_le_eq)
  ultimately have "?q \<in> set (rx_match (Rep Dot 1 None) (n, s))"
    unfolding rx_match_Rep_iff by (intro exI [of _ "length s"]) simp
  moreover have "rx_match Eol ?q \<noteq> []" by simp
  ultimately show "rx_match (Seq (Rep Dot 1 None) Eol) (n, s) \<noteq> []"
    unfolding rx_match_Seq_iff by blast
qed

lemma rx_match_sep:
  assumes "CHR 0x0A \<notin> set s"
  shows "rx_match (Seq (Rep NonWord 1 None) (Seq (Rep Dot 1 None) Eol)) (n, s) \<noteq> [] \<longleftrightarrow>
     (\<exists>sep rest. s = sep @ rest \<and> sep \<noteq> [] \<and> (\<forall>c \<in> set sep. c \<notin> set word_chars)
        \<and> rest \<noteq> [])"
    (is "?l \<longleftrightarrow> ?r")
proof
  assume ?l
  then obtain q where q: "q \<in> set (rx_match (Rep NonWord 1 None) (n, s))"
    and t: "rx_match (Seq (Rep Dot 1 None) Eol) q \<noteq> []"
    unfolding rx_match_Seq_iff by blast
  from q obtain k where k: "q = (n + k, drop k s)" "1 \<le> k" "k \<le> length s"
    "\<forall>c \<in> set (take k s). atom_ok NonWord c"
    unfolding rx_match_Rep_iff by blast
  have nl: "CHR 0x0A \<notin> set (drop k s)" using assms by (auto dest: in_set_dropD)
  have "drop k s \<noteq> []" using t rx_match_text [OF nl, of "n + k"] unfolding k(1) by blast
  moreover have "s = take k s @ drop k s" by simp
  moreover have "take k s \<noteq> []" using k(2,3) by auto
  moreover have "\<forall>c \<in> set (take k s). c \<notin> set word_chars" using k(4) by simp
  ultimately show ?r by blast
next
  assume ?r
  then obtain sep rest where s: "s = sep @ rest" and sep: "sep \<noteq> []"
    "\<forall>c \<in> set sep. c \<notin> set word_chars" and rest: "rest \<noteq> []"
    by blast
  let ?q = "(n + length sep, drop (length sep) s)"
  have "\<forall>c \<in> set (take (length sep) s). atom_ok NonWord c" using s sep(2) by simp
  moreover have "1 \<le> length sep" using sep(1) by (simp add: Suc_le_eq)
  moreover have "length sep \<le> length s" using s by simp
  ultimately have "?q \<in> set (rx_match (Rep NonWord 1 None) (n, s))"
    unfolding rx_match_Rep_iff by (intro exI [of _ "length sep"]) simp
  moreover have nl: "CHR 0x0A \<notin> set rest" using assms s by simp
  have "rx_match (Seq (Rep Dot 1 None) Eol) ?q \<noteq> []"
    using rx_match_text [OF nl, of "n + length sep"] rest s by simp
  ultimately show ?l unfolding rx_match_Seq_iff by blast
qed

lemma rx_match_token:
  assumes "CHR 0x0A \<notin> set s"
  shows "rx_match (Seq (Rep Word 2 (Some 63))
            (Seq (Rep NonWord 1 None) (Seq (Rep Dot 1 None) Eol))) (n, s) \<noteq> [] \<longleftrightarrow>
     (\<exists>token sep rest. s = token @ sep @ rest
        \<and> 2 \<le> length token \<and> length token \<le> 63 \<and> (\<forall>c \<in> set token. c \<in> set word_chars)
        \<and> sep \<noteq> [] \<and> (\<forall>c \<in> set sep. c \<notin> set word_chars)
        \<and> rest \<noteq> [])"
    (is "?l \<longleftrightarrow> ?r")
proof
  assume ?l
  then obtain q where q: "q \<in> set (rx_match (Rep Word 2 (Some 63)) (n, s))"
    and t: "rx_match (Seq (Rep NonWord 1 None) (Seq (Rep Dot 1 None) Eol)) q \<noteq> []"
    unfolding rx_match_Seq_iff by blast
  from q obtain k where k: "q = (n + k, drop k s)" "2 \<le> k" "k \<le> length s"
    "\<forall>c \<in> set (take k s). atom_ok Word c" and k63: "k \<le> 63"
    unfolding rx_match_Rep_iff by auto
  have nl: "CHR 0x0A \<notin> set (drop k s)" using assms by (auto dest: in_set_dropD)
  from t obtain sep rest where sr: "drop k s = sep @ rest" "sep \<noteq> []"
    "\<forall>c \<in> set sep. c \<notin> set word_chars" "rest \<noteq> []"
    using rx_match_sep [OF nl, of "n + k"] unfolding k(1) by blast
  have "s = take k s @ sep @ rest" using sr(1) append_take_drop_id [of k s] by simp
  moreover have "length (take k s) = k" using k(3) by simp
  moreover have "\<forall>c \<in> set (take k s). c \<in> set word_chars" using k(4) by simp
  ultimately show ?r using k(2) k63 sr(2,3,4) by metis
next
  assume ?r
  then obtain token sep rest where s: "s = token @ sep @ rest"
    and tok: "2 \<le> length token" "length token \<le> 63" "\<forall>c \<in> set token. c \<in> set word_chars"
    and sep: "sep \<noteq> []" "\<forall>c \<in> set sep. c \<notin> set word_chars" and rest: "rest \<noteq> []"
    by blast
  let ?q = "(n + length token, drop (length token) s)"
  have "\<forall>c \<in> set (take (length token) s). atom_ok Word c" using s tok(3) by simp
  moreover have "length token \<le> length s" using s by simp
  ultimately have "?q \<in> set (rx_match (Rep Word 2 (Some 63)) (n, s))"
    unfolding rx_match_Rep_iff using tok(1,2) by (intro exI [of _ "length token"]) simp
  moreover have nl: "CHR 0x0A \<notin> set (sep @ rest)" using assms s by simp
  have "rx_match (Seq (Rep NonWord 1 None) (Seq (Rep Dot 1 None) Eol))
      (n + length token, sep @ rest) \<noteq> []"
    using rx_match_sep [OF nl, of "n + length token"] sep rest by blast
  then have "rx_match (Seq (Rep NonWord 1 None) (Seq (Rep Dot 1 None) Eol)) ?q \<noteq> []"
    using s by simp
  ultimately show ?l unfolding rx_match_Seq_iff by blast
qed

text \<open>
  On a line without a newline, as \<^verbatim>\<open>getstr()\<close> returns it, the pattern of the source
  matches exactly the lines the specification describes.
\<close>

lemma push_pattern_words:
  assumes "CHR 0x0A \<notin> set line"
  shows "re_match push_pattern line \<longleftrightarrow> spec_push_command line"
proof -
  let ?W = "Seq (Rep Word 2 (Some 63)) (Seq (Rep NonWord 1 None) (Seq (Rep Dot 1 None) Eol))"
  define p where "p = ''pssst.''"
  have nl: "CHR 0x0A \<notin> set (drop (length p) line)" using assms by (auto dest: in_set_dropD)
  have pre: "take (length p) line = p \<and> drop (length p) line = t \<longleftrightarrow> line = p @ t" for t
  proof
    assume "take (length p) line = p \<and> drop (length p) line = t"
    then show "line = p @ t" using append_take_drop_id [of "length p" line] by metis
  next
    assume "line = p @ t"
    then show "take (length p) line = p \<and> drop (length p) line = t" by simp
  qed
  have "re_match push_pattern line \<longleftrightarrow>
      rx_match ?W (0, line) \<noteq> []
    \<or> (take (length p) line = p \<and> rx_match ?W (0 + length p, drop (length p) line) \<noteq> [])"
    unfolding re_match_def push_pattern_def rx_match_Seq_Bol rx_match_Seq_Opt_Str p_def ..
  also have "\<dots> \<longleftrightarrow>
      (\<exists>token sep rest. line = [] @ token @ sep @ rest
        \<and> 2 \<le> length token \<and> length token \<le> 63 \<and> (\<forall>c \<in> set token. c \<in> set word_chars)
        \<and> sep \<noteq> [] \<and> (\<forall>c \<in> set sep. c \<notin> set word_chars)
        \<and> rest \<noteq> [])
    \<or> (\<exists>token sep rest. line = p @ token @ sep @ rest
        \<and> 2 \<le> length token \<and> length token \<le> 63 \<and> (\<forall>c \<in> set token. c \<in> set word_chars)
        \<and> sep \<noteq> [] \<and> (\<forall>c \<in> set sep. c \<notin> set word_chars)
        \<and> rest \<noteq> [])"
  proof -
    have "take (length p) line = p \<and> (\<exists>token sep rest. drop (length p) line = token @ sep @ rest
        \<and> 2 \<le> length token \<and> length token \<le> 63 \<and> (\<forall>c \<in> set token. c \<in> set word_chars)
        \<and> sep \<noteq> [] \<and> (\<forall>c \<in> set sep. c \<notin> set word_chars)
        \<and> rest \<noteq> [])
      \<longleftrightarrow> (\<exists>token sep rest. line = p @ token @ sep @ rest
        \<and> 2 \<le> length token \<and> length token \<le> 63 \<and> (\<forall>c \<in> set token. c \<in> set word_chars)
        \<and> sep \<noteq> [] \<and> (\<forall>c \<in> set sep. c \<notin> set word_chars)
        \<and> rest \<noteq> [])"
      (is "?a \<longleftrightarrow> ?b")
    proof
      assume ?a
      then obtain token sep rest where "take (length p) line = p"
        "drop (length p) line = token @ sep @ rest"
        and c: "2 \<le> length token" "length token \<le> 63" "\<forall>c \<in> set token. c \<in> set word_chars"
        "sep \<noteq> []" "\<forall>c \<in> set sep. c \<notin> set word_chars" "rest \<noteq> []"
        by blast
      then have "line = p @ token @ sep @ rest" using pre [of "token @ sep @ rest"] by blast
      with c show ?b by blast
    next
      assume ?b
      then obtain token sep rest where l: "line = p @ token @ sep @ rest"
        and c: "2 \<le> length token" "length token \<le> 63" "\<forall>c \<in> set token. c \<in> set word_chars"
        "sep \<noteq> []" "\<forall>c \<in> set sep. c \<notin> set word_chars" "rest \<noteq> []"
        by blast
      from l have "take (length p) line = p" "drop (length p) line = token @ sep @ rest"
        using pre [of "token @ sep @ rest"] by blast+
      with c show ?a by blast
    qed
    then show ?thesis
      unfolding rx_match_token [OF assms] rx_match_token [OF nl] by simp
  qed
  also have "\<dots> \<longleftrightarrow> spec_push_command line"
    unfolding spec_push_command_def p_def by blast
  finally show ?thesis .
qed

section \<open>The commands\<close>

lemma pssst_push_simps:
  "halt (pssst_push push r m s) = halt s"
  "pushes (calls (pssst_push push r m s)) = pushes (calls s) @ [(r, m)]"
  by (simp_all add: pssst_push_def Let_def pushes_append split: option.splits)

lemma exit_simps:
  "halt (exit s)" "buffer (exit s) = buffer s"
  "calls (exit s) = calls s @ [Thread_join, Clear, Refresh]"
  by (simp_all add: exit_def)

lemma lower_space: "CHR 0x20 \<in> set line \<Longrightarrow> lower line \<noteq> ''exit''"
proof
  assume a: "CHR 0x20 \<in> set line" and b: "lower line = ''exit''"
  have "(case map_of (zip ascii_uppercase ascii_lowercase) (CHR 0x20) of None \<Rightarrow> CHR 0x20 | Some d \<Rightarrow> d) = CHR 0x20"
    by (simp add: ascii_uppercase_def ascii_lowercase_def)
  with a have "CHR 0x20 \<in> set (lower line)"
    unfolding lower_def set_map by (rule rev_image_eqI[OF _ sym])
  with b show False by simp
qed

lemma split1_space:
  assumes "CHR 0x20 \<in> set line"
  shows "split1 line = [takeWhile (\<lambda>c. c \<noteq> CHR 0x20) line, tl (dropWhile (\<lambda>c. c \<noteq> CHR 0x20) line)]"
    and "line = takeWhile (\<lambda>c. c \<noteq> CHR 0x20) line @ '' '' @ tl (dropWhile (\<lambda>c. c \<noteq> CHR 0x20) line)"
proof -
  let ?b = "dropWhile (\<lambda>c. c \<noteq> CHR 0x20) line"
  from assms have ne: "?b \<noteq> []" by (simp add: dropWhile_eq_Nil_conv) 
  then show "split1 line = [takeWhile (\<lambda>c. c \<noteq> CHR 0x20) line, tl ?b]"
    by (simp add: split1_def Let_def)
  from ne have "hd ?b = CHR 0x20" using hd_dropWhile [of "\<lambda>c. c \<noteq> CHR 0x20" line] by simp
  with ne have "?b = '' '' @ tl ?b" by (cases ?b) simp_all
  then show "line = takeWhile (\<lambda>c. c \<noteq> CHR 0x20) line @ '' '' @ tl ?b"
    using takeWhile_dropWhile_id [of "\<lambda>c. c \<noteq> CHR 0x20" line] by metis
qed

lemma split1_no_space:
  "CHR 0x20 \<notin> set line \<Longrightarrow> split1 line = [line]"
  by (simp add: split1_def Let_def dropWhile_eq_Nil_conv)

lemma run_loop_Cons:
  "run_loop push (raw # rest) s =
     (case run_line push (strip raw) (prompt_draw (render s)) of
        Continue t \<Rightarrow> run_loop push rest t
      | Return t \<Rightarrow> Return t
      | Raise ex t \<Rightarrow> Raise ex t)"
  by (simp add: prompt_def)

text \<open>
  C1, as the code has it. For a line that matches the command pattern and has a space,
  the session calls \<^verbatim>\<open>push(receiver, message)\<close> where the receiver is the text before the
  first space and the message the text after it: the two parts of
  \<^verbatim>\<open>line.split(" ", 1)\<close>. Separator characters before the first space stay in the
  receiver, and those after it in the message.
\<close>

theorem push_command:
  assumes "re_match push_pattern line" and "CHR 0x20 \<in> set line"
  shows "\<exists>receiver message.
           split1 line = [receiver, message]
         \<and> line = receiver @ '' '' @ message \<and> CHR 0x20 \<notin> set receiver
         \<and> run_line push line s = Continue (pssst_push push receiver message s)
         \<and> pushes (calls (pssst_push push receiver message s))
             = pushes (calls s) @ [(receiver, message)]
         \<and> (\<forall>raw rest. strip raw = line \<longrightarrow>
               run_loop push (raw # rest) s
                 = run_loop push rest (pssst_push push receiver message (prompt_draw (render s))))"
proof -
  let ?r = "takeWhile (\<lambda>c. c \<noteq> CHR 0x20) line"
  let ?m = "tl (dropWhile (\<lambda>c. c \<noteq> CHR 0x20) line)"
  from assms(2) have ne: "line \<noteq> []" by auto
  have sp: "split1 line = [?r, ?m]" by (rule split1_space(1) [OF assms(2)])
  have run: "run_line push line s' = Continue (pssst_push push ?r ?m s')" for s'
    using ne assms(1) lower_space [OF assms(2)] sp
    by (simp add: run_line_def)
  have "line = ?r @ '' '' @ ?m" by (rule split1_space(2) [OF assms(2)])
  moreover have "CHR 0x20 \<notin> set ?r" by (auto dest: set_takeWhileD)
  moreover have "\<forall>raw rest. strip raw = line \<longrightarrow>
      run_loop push (raw # rest) s = run_loop push rest (pssst_push push ?r ?m (prompt_draw (render s)))"
    by (simp add: run_loop_Cons run del: run_loop.simps)
  ultimately show ?thesis using sp run [of s] pssst_push_simps(2) by blast
qed

lemma match_alice: "re_match push_pattern ''alice hello there''"
  by (simp add: re_match_def push_pattern_def word_chars_def ascii_lowercase_def
      ascii_uppercase_def digits_def)

lemma match_pssst_alice: "re_match push_pattern ''pssst.alice: hi''"
  by (simp add: re_match_def push_pattern_def word_chars_def ascii_lowercase_def
      ascii_uppercase_def digits_def)

lemma split1_alice: "split1 ''alice hello there'' = [''alice'', ''hello there'']"
  by (simp add: split1_def)

theorem push_command_witness:
  "re_match push_pattern ''alice hello there'' \<and> CHR 0x20 \<in> set ''alice hello there''
   \<and> run_line push_ok ''alice hello there'' term0
       = Continue (pssst_push push_ok ''alice'' ''hello there'' term0)
   \<and> pushes (calls (pssst_push push_ok ''alice'' ''hello there'' term0))
       = [(''alice'', ''hello there'')]"
proof -
  have sp: "CHR 0x20 \<in> set ''alice hello there''" by simp
  from push_command [OF match_alice sp, of push_ok term0]
  obtain r m where l: "split1 ''alice hello there'' = [r, m]"
    and run: "run_line push_ok ''alice hello there'' term0 = Continue (pssst_push push_ok r m term0)"
    and p: "pushes (calls (pssst_push push_ok r m term0)) = pushes (calls term0) @ [(r, m)]"
    by blast
  from l have rm: "r = ''alice''" "m = ''hello there''"
    unfolding split1_alice by simp_all
  have a: "run_line push_ok ''alice hello there'' term0
       = Continue (pssst_push push_ok ''alice'' ''hello there'' term0)"
    using run unfolding rm .
  have b: "pushes (calls (pssst_push push_ok ''alice'' ''hello there'' term0))
       = [(''alice'', ''hello there'')]"
    using p unfolding rm by simp
  from match_alice sp a b show ?thesis by blast
qed

text \<open>
  The line \<^verbatim>\<open>pssst.alice: hi\<close> matches the pattern, and the receiver pushed to is
  \<^verbatim>\<open>pssst.alice:\<close>, with the colon, not \<^verbatim>\<open>pssst.alice\<close>.
\<close>

theorem push_receiver_counterexample:
  "re_match push_pattern ''pssst.alice: hi''
   \<and> run_line push_ok ''pssst.alice: hi'' term0
       = Continue (pssst_push push_ok ''pssst.alice:'' ''hi'' term0)
   \<and> pushes (calls (state (run_line push_ok ''pssst.alice: hi'' term0)))
       = [(''pssst.alice:'', ''hi'')]
   \<and> pushes (calls (state (run_line push_ok ''pssst.alice: hi'' term0)))
       \<noteq> [(''pssst.alice'', ''hi'')]"
proof -
  have "run_line push_ok ''pssst.alice: hi'' term0
       = Continue (pssst_push push_ok ''pssst.alice:'' ''hi'' term0)"
    using match_pssst_alice
    by (simp add: run_line_def split1_def lower_def ascii_uppercase_def ascii_lowercase_def)
  then show ?thesis using match_pssst_alice by (simp add: pssst_push_simps)
qed

lemma match_alice_comma: "re_match push_pattern ''alice,hi''"
  by (simp add: re_match_def push_pattern_def word_chars_def ascii_lowercase_def
      ascii_uppercase_def digits_def)

text \<open>
  A line that matches the pattern with a separator that has no space, such as
  \<^verbatim>\<open>alice,hi\<close>, splits into one part: the call of \<^verbatim>\<open>__pssst_push\<close> raises a
  \<^verbatim>\<open>TypeError\<close> and nothing is pushed.
\<close>

lemma push_without_space:
  "run_line push ''alice,hi'' s
     = Raise (TypeError ''__pssst_push() takes exactly 3 arguments (2 given)'') s"
  using match_alice_comma
  by (simp add: run_line_def split1_def lower_def ascii_uppercase_def ascii_lowercase_def)

section \<open>Exit\<close>

lemma lower_Nil: "lower line = ''exit'' \<Longrightarrow> line \<noteq> []"
  by (auto simp: lower_def)

text \<open>
  C6. When the line typed, once stripped, is \<^verbatim>\<open>exit\<close> in any mix of cases, the loop of
  \<^verbatim>\<open>run\<close> returns: the flag is set, the thread is joined, the screen is cleared and
  refreshed, the buffer is as it was and nothing has been pushed. The lines typed after it
  are not read.
\<close>

theorem exit_command:
  assumes "lower (strip raw) = ''exit''"
  shows "\<exists>t. run_loop push (raw # rest) s = Return t
           \<and> halt t
           \<and> buffer t = buffer s
           \<and> pushes (calls t) = pushes (calls s)
           \<and> calls t = calls (prompt_draw (render s)) @ [Thread_join, Clear, Refresh]"
proof -
  let ?t = "exit (prompt_draw (render s))"
  have "run_line push (strip raw) (prompt_draw (render s)) = Return ?t"
    using assms lower_Nil [OF assms] by (simp add: run_line_def)
  then have "run_loop push (raw # rest) s = Return ?t"
    by (simp add: run_loop_Cons del: run_loop.simps)
  moreover have "halt ?t" by (simp add: exit_simps)
  moreover have "buffer ?t = buffer s"
    by (simp add: exit_simps prompt_draw_simps render_simps)
  moreover have "pushes (calls ?t) = pushes (calls s)"
    by (simp add: exit_simps pushes_append pushes_prompt_draw pushes_render)
  moreover have "calls ?t = calls (prompt_draw (render s)) @ [Thread_join, Clear, Refresh]"
    by (simp add: exit_simps)
  ultimately show ?thesis by blast
qed

lemma lower_strip_EXIT: "lower (strip ''EXIT'') = ''exit''"
  by (simp add: strip_def whitespace_def lower_def ascii_uppercase_def ascii_lowercase_def)

theorem exit_command_witness:
  "lower (strip ''EXIT'') = ''exit''
   \<and> (\<exists>t. run_loop push_ok [''EXIT'', ''alice hello there''] term0 = Return t
          \<and> halt t \<and> buffer t = [INTRO, []] \<and> pushes (calls t) = [])"
proof -
  from exit_command [OF lower_strip_EXIT, of push_ok "[''alice hello there'']" term0]
  obtain t where "run_loop push_ok [''EXIT'', ''alice hello there''] term0 = Return t"
    and "halt t" and "buffer t = buffer term0" and "pushes (calls t) = pushes (calls term0)"
    by blast
  then have "run_loop push_ok [''EXIT'', ''alice hello there''] term0 = Return t
          \<and> halt t \<and> buffer t = [INTRO, []] \<and> pushes (calls t) = []"
    by simp
  then show ?thesis using lower_strip_EXIT by blast
qed

section \<open>Unknown commands\<close>

text \<open>
  C9. When the line the prompt returns is not empty, is not \<^verbatim>\<open>exit\<close> in any mix of
  cases and does not match the command pattern, the session appends the one line
  \<^verbatim>\<open>Error: Unknown command\<close> to the buffer, makes no call and pushes nothing, and the
  loop goes on with the next line.
\<close>

theorem unknown_command:
  assumes "strip raw \<noteq> []"
    and "lower (strip raw) \<noteq> ''exit''"
    and "\<not> re_match push_pattern (strip raw)"
  shows "run_line push (strip raw) s = Continue (s\<lparr>buffer := buffer s @ [''Error: Unknown command'']\<rparr>)
       \<and> (\<exists>t. run_loop push (raw # rest) s = run_loop push rest t
              \<and> buffer t = buffer s @ [''Error: Unknown command'']
              \<and> pushes (calls t) = pushes (calls s)
              \<and> halt t = halt s)"
proof -
  have line: "run_line push (strip raw) s' = Continue (s'\<lparr>buffer := buffer s' @ [''Error: Unknown command'']\<rparr>)"
    for s'
    using assms by (simp add: run_line_def)
  let ?t = "(prompt_draw (render s))\<lparr>buffer := buffer (prompt_draw (render s)) @ [''Error: Unknown command'']\<rparr>"
  have "run_loop push (raw # rest) s = run_loop push rest ?t"
    by (simp add: run_loop_Cons line del: run_loop.simps)
  moreover have "buffer ?t = buffer s @ [''Error: Unknown command'']"
    by (simp add: prompt_draw_simps render_simps)
  moreover have "pushes (calls ?t) = pushes (calls s)"
    by (simp add: pushes_prompt_draw pushes_render)
  moreover have "halt ?t = halt s"
    by (simp add: prompt_draw_simps render_simps)
  ultimately show ?thesis using line by blast
qed

lemma no_match_a: "\<not> re_match push_pattern ''a''"
  by (simp add: re_match_def push_pattern_def word_chars_def ascii_lowercase_def
      ascii_uppercase_def digits_def)

lemma strip_a: "strip ''a'' = ''a''"
  by (simp add: strip_def whitespace_def)

theorem unknown_command_witness:
  "strip ''a'' \<noteq> [] \<and> lower (strip ''a'') \<noteq> ''exit'' \<and> \<not> re_match push_pattern (strip ''a'')
   \<and> run_line push_ok ''a'' term0
       = Continue (term0\<lparr>buffer := [INTRO, [], ''Error: Unknown command'']\<rparr>)"
proof -
  have h1: "strip ''a'' \<noteq> []" by (simp add: strip_a)
  have h2: "lower (strip ''a'') \<noteq> ''exit''" by (simp add: strip_a lower_def)
  have h3: "\<not> re_match push_pattern (strip ''a'')" by (simp add: strip_a no_match_a)
  from unknown_command [OF h1 h2 h3, of push_ok term0]
  have "run_line push_ok (strip ''a'') term0
      = Continue (term0\<lparr>buffer := buffer term0 @ [''Error: Unknown command'']\<rparr>)"
    by blast
  then have "run_line push_ok ''a'' term0
       = Continue (term0\<lparr>buffer := [INTRO, [], ''Error: Unknown command'']\<rparr>)"
    by (simp add: strip_a)
  with h1 h2 h3 show ?thesis by blast
qed

text \<open>
  The same in the words of the specification: a line without a newline that is not
  empty, is not \<^verbatim>\<open>exit\<close> and is not of the form described is answered with the error
  line.
\<close>

lemma unknown_command_words:
  assumes "CHR 0x0A \<notin> set line" and "line \<noteq> []" and "lower line \<noteq> ''exit''"
    and "\<not> spec_push_command line"
  shows "run_line push line s = Continue (s\<lparr>buffer := buffer s @ [''Error: Unknown command'']\<rparr>)"
  using assms by (simp add: run_line_def push_pattern_words)

section \<open>Construction\<close>

text \<open>
  C8. With a profile that is \<^verbatim>\<open>None\<close> or empty, \<^verbatim>\<open>__init__\<close> raises
  \<^verbatim>\<open>Profile required\<close> and \<^verbatim>\<open>main\<close> returns \<^verbatim>\<open>Error: Profile required\<close> with no call
  made: \<^verbatim>\<open>__enter__\<close> has not run. With any other profile the check of \<^verbatim>\<open>__init__\<close>
  does not raise: the construction fails only if the constructor of \<^verbatim>\<open>Pssst\<close> does, and
  with its exception.
\<close>

theorem profile_required:
  "(\<not> truthy profile \<longrightarrow>
       init Pssst profile = Inl (Exception ''Profile required'')
     \<and> main Pssst push maxyx profile typed = (Returned (Some ''Error: Profile required''), []))
   \<and> (truthy profile \<longrightarrow>
       (\<exists>args. profile = Some args \<and> args \<noteq> []
          \<and> init Pssst profile
              = (case Pssst args of
                   Inl ex \<Rightarrow> Inl ex
                 | Inr p \<Rightarrow> Inr \<lparr>buffer = [INTRO, []], pssst = p, halt = False\<rparr>)))"
proof (intro conjI impI)
  assume "\<not> truthy profile"
  then show "init Pssst profile = Inl (Exception ''Profile required'')"
    by (simp add: init_def)
  then show "main Pssst push maxyx profile typed = (Returned (Some ''Error: Profile required''), [])"
    by (simp add: main_def)
next
  assume "truthy profile"
  then show "\<exists>args. profile = Some args \<and> args \<noteq> []
          \<and> init Pssst profile
              = (case Pssst args of
                   Inl ex \<Rightarrow> Inl ex
                 | Inr p \<Rightarrow> Inr \<lparr>buffer = [INTRO, []], pssst = p, halt = False\<rparr>)"
    by (cases profile) (simp_all add: init_def truthy_def)
qed

theorem profile_required_witness:
  "\<not> truthy None \<and> \<not> truthy (Some [])
   \<and> init Pssst_ok None = Inl (Exception ''Profile required'')
   \<and> init Pssst_ok (Some []) = Inl (Exception ''Profile required'')
   \<and> main Pssst_ok push_ok (24, 80) (Some []) [''exit'']
       = (Returned (Some ''Error: Profile required''), [])
   \<and> truthy (Some [''bob''])
   \<and> init Pssst_ok (Some [''bob'']) = Inr \<lparr>buffer = [INTRO, []], pssst = bob, halt = False\<rparr>"
proof -
  have f1: "\<not> truthy None" and f2: "\<not> truthy (Some [])" and t: "truthy (Some [''bob''])"
    by (simp_all add: truthy_def)
  from profile_required [of None Pssst_ok push_ok "(24, 80)" "[''exit'']"] f1
  have a: "init Pssst_ok None = Inl (Exception ''Profile required'')" by blast
  from profile_required [of "Some []" Pssst_ok push_ok "(24, 80)" "[''exit'']"] f2
  have b: "init Pssst_ok (Some []) = Inl (Exception ''Profile required'')"
    and c: "main Pssst_ok push_ok (24, 80) (Some []) [''exit'']
       = (Returned (Some ''Error: Profile required''), [])" by blast+
  from profile_required [of "Some [''bob'']" Pssst_ok push_ok "(24, 80)" "[''exit'']"] t
  have d: "init Pssst_ok (Some [''bob'']) = Inr \<lparr>buffer = [INTRO, []], pssst = bob, halt = False\<rparr>"
    by (auto simp: Pssst_ok_def)
  from f1 f2 a b c t d show ?thesis by blast
qed

text \<open>
  C10. After a construction that succeeded, which needs a profile that is not empty, the
  buffer is the two lines \<^verbatim>\<open>INTRO\<close> and the empty line.
\<close>

theorem intro_buffer:
  assumes "init Pssst profile = Inr c"
  shows "buffer c = [INTRO, []]
       \<and> INTRO = ''Type 'USERNAME ...' to send a message and 'exit' to exit.''
       \<and> length (buffer c) = 2 \<and> truthy profile"
  using assms by (auto simp: init_def INTRO_def split: if_splits option.splits sum.splits)

theorem intro_buffer_witness:
  "init Pssst_ok (Some [''bob'']) = Inr \<lparr>buffer = [INTRO, []], pssst = bob, halt = False\<rparr>
   \<and> buffer \<lparr>buffer = [INTRO, []], pssst = bob, halt = False\<rparr>
       = [''Type 'USERNAME ...' to send a message and 'exit' to exit.'', []]"
proof -
  have i: "init Pssst_ok (Some [''bob'']) = Inr \<lparr>buffer = [INTRO, []], pssst = bob, halt = False\<rparr>"
    by (simp add: init_def truthy_def Pssst_ok_def)
  from intro_buffer [OF i] i show ?thesis by simp
qed

section \<open>The halting flag\<close>

lemma init_halt: "init Pssst profile = Inr c \<Longrightarrow> \<not> halt c"
  by (auto simp: init_def split: if_splits option.splits sum.splits)

lemma enter_halt: "halt (enter maxyx c) = halt c"
  by (cases maxyx) (simp add: enter_def)

lemma run_line_halt:
  "halt (state (run_line push line s)) \<longleftrightarrow> halt s \<or> (line \<noteq> [] \<and> lower line = ''exit'')"
  by (simp add: run_line_def exit_simps pssst_push_simps split: list.splits)

lemma run_line_Return:
  "run_line push line s = Return t \<longleftrightarrow> line \<noteq> [] \<and> lower line = ''exit'' \<and> t = exit s"
  by (auto simp: run_line_def split: list.splits)

lemma run_loop_halt: "halt s \<Longrightarrow> halt (state (run_loop push typed s))"
proof (induction typed arbitrary: s)
  case Nil
  then show ?case by (simp add: prompt_draw_simps render_simps)
next
  case (Cons raw rest)
  let ?s = "prompt_draw (render s)"
  from Cons.prems have h: "halt (state (run_line push (strip raw) ?s))"
    by (simp add: run_line_halt prompt_draw_simps render_simps)
  show ?case
  proof (cases "run_line push (strip raw) ?s")
    case (Continue t)
    with h Cons.IH [of t] show ?thesis by (simp add: run_loop_Cons del: run_loop.simps)
  next
    case (Return t)
    with h show ?thesis by (simp add: run_loop_Cons del: run_loop.simps)
  next
    case (Raise ex t)
    with h show ?thesis by (simp add: run_loop_Cons del: run_loop.simps)
  qed
qed

lemma run_loop_halt_iff:
  "\<not> halt s \<Longrightarrow>
     halt (state (run_loop push typed s)) \<longleftrightarrow> (\<exists>t. run_loop push typed s = Return t)"
proof (induction typed arbitrary: s)
  case Nil
  then show ?case by (simp add: prompt_draw_simps render_simps)
next
  case (Cons raw rest)
  let ?s = "prompt_draw (render s)"
  from Cons.prems have n: "\<not> halt ?s" by (simp add: prompt_draw_simps render_simps)
  show ?case
  proof (cases "run_line push (strip raw) ?s")
    case (Continue t)
    with run_line_halt [of push "strip raw" ?s] run_line_Return [of push "strip raw" ?s] n
    have "\<not> halt t" by (cases "strip raw = []") auto
    with Continue Cons.IH [of t] show ?thesis by (simp add: run_loop_Cons del: run_loop.simps)
  next
    case (Return t)
    with run_line_Return [of push "strip raw" ?s t] have "halt t" by (simp add: exit_simps)
    with Return show ?thesis by (simp add: run_loop_Cons del: run_loop.simps)
  next
    case (Raise ex t)
    with run_line_halt [of push "strip raw" ?s] run_line_Return [of push "strip raw" ?s] n
    have "\<not> halt t" by (cases "strip raw = []") auto
    with Raise show ?thesis by (simp add: run_loop_Cons del: run_loop.simps)
  qed
qed

text \<open>
  C7. The flag is false after \<^verbatim>\<open>__init__\<close>. \<^verbatim>\<open>__enter__\<close>, \<^verbatim>\<open>__render\<close>,
  \<^verbatim>\<open>__prompt\<close>, \<^verbatim>\<open>__pssst_push\<close>, \<^verbatim>\<open>__pssst_pull\<close> and the poller leave it as it is;
  \<^verbatim>\<open>exit\<close> sets it; one step of \<^verbatim>\<open>run\<close> sets it exactly on the exit command. Once set
  it stays set through \<^verbatim>\<open>run\<close>, and a loop of \<^verbatim>\<open>run\<close> that started with the flag unset
  ends with it set exactly when it has returned. With the flag set the poller makes no
  pass.
\<close>

theorem halt_monotone:
  "(init Pssst profile = Inr c \<longrightarrow> \<not> halt c)
   \<and> halt (enter maxyx c) = halt c
   \<and> halt (render s) = halt s
   \<and> halt (snd (prompt raw s)) = halt s
   \<and> halt (pssst_push push receiver message s) = halt s
   \<and> halt (snd (pssst_pull pulled s)) = halt s
   \<and> halt (state (thread_pass decode pulled s)) = halt s
   \<and> halt (state (thread decode pulls s)) = halt s
   \<and> halt (exit s)
   \<and> (halt (state (run_line push line s)) \<longleftrightarrow> halt s \<or> (line \<noteq> [] \<and> lower line = ''exit''))
   \<and> (halt s \<longrightarrow> halt (state (run_loop push typed s)))
   \<and> (\<not> halt s \<longrightarrow>
        (halt (state (run_loop push typed s)) \<longleftrightarrow> (\<exists>t. run_loop push typed s = Return t)))
   \<and> (halt s \<longrightarrow> thread decode pulls s = Return s)"
proof -
  have "init Pssst profile = Inr c \<longrightarrow> \<not> halt c" using init_halt by blast
  moreover have "halt (enter maxyx c) = halt c" by (rule enter_halt)
  moreover have "halt (render s) = halt s" by (rule render_simps)
  moreover have "halt (snd (prompt raw s)) = halt s" by (simp add: prompt_def prompt_draw_simps)
  moreover have "halt (pssst_push push receiver message s) = halt s" by (rule pssst_push_simps)
  moreover have "halt (snd (pssst_pull pulled s)) = halt s" by (rule pssst_pull_simps)
  moreover have "halt (state (thread_pass decode pulled s)) = halt s" by (rule thread_pass_halt)
  moreover have "halt (state (thread decode pulls s)) = halt s" by (rule thread_halt)
  moreover have "halt (exit s)" by (rule exit_simps)
  moreover have "halt (state (run_line push line s)) \<longleftrightarrow> halt s \<or> (line \<noteq> [] \<and> lower line = ''exit'')"
    by (rule run_line_halt)
  moreover have "halt s \<longrightarrow> halt (state (run_loop push typed s))" using run_loop_halt by blast
  moreover have "\<not> halt s \<longrightarrow>
        (halt (state (run_loop push typed s)) \<longleftrightarrow> (\<exists>t. run_loop push typed s = Return t))"
    using run_loop_halt_iff by blast
  moreover have "halt s \<longrightarrow> thread decode pulls s = Return s" using thread_halted by blast
  ultimately show ?thesis by (intro conjI)
qed

theorem halt_monotone_witness:
  "init Pssst_ok (Some [''bob'']) = Inr \<lparr>buffer = [INTRO, []], pssst = bob, halt = False\<rparr>
   \<and> \<not> halt \<lparr>buffer = [INTRO, []], pssst = bob, halt = False\<rparr>
   \<and> \<not> halt term0
   \<and> halt (exit term0)
   \<and> halt (state (run_loop push_ok [''a'', ''exit''] (exit term0)))
   \<and> thread Inr [Inr [''hello'']] (exit term0) = Return (exit term0)"
proof -
  have i: "init Pssst_ok (Some [''bob'']) = Inr \<lparr>buffer = [INTRO, []], pssst = bob, halt = False\<rparr>"
    by (simp add: init_def truthy_def Pssst_ok_def)
  note m = halt_monotone [of Pssst_ok "Some [''bob'']" "\<lparr>buffer = [INTRO, []], pssst = bob, halt = False\<rparr>"
      "(24, 80)" "exit term0" "''a''" push_ok "''alice''" "''hi''" "Inr []" Inr "[Inr [''hello'']]"
      "''exit''" "[''a'', ''exit'']"]
  from m i have a: "\<not> halt \<lparr>buffer = [INTRO, []], pssst = bob, halt = False\<rparr>" by blast
  from m have b: "halt (exit (exit term0))" by blast
  have h: "halt (exit term0)" by (simp add: exit_simps)
  from m h have c: "halt (state (run_loop push_ok [''a'', ''exit''] (exit term0)))" by blast
  from m h have d: "thread Inr [Inr [''hello'']] (exit term0) = Return (exit term0)" by blast
  have e: "\<not> halt term0" by simp
  from i a e h c d show ?thesis by blast
qed

end
